theory Spec2Isabelle
  imports Main "HOL-Library.Sublist"
begin

section \<open>Strings\<close>

text \<open>
  A Python \<open>str\<close> is a sequence of Unicode code points. The Turkish letters of the
  program lie outside Latin-1, so a character is its code point (a natural number) and a
  string is a list of code points. \<open>ustr\<close> reads an ASCII literal as such a string.
\<close>

type_synonym ustr = "nat list"

definition ustr :: "string \<Rightarrow> ustr" where
  "ustr s = map of_char s"

text \<open>Python's \<open>xs[j:i]\<close> for indices \<open>0 \<le> j\<close>, \<open>0 \<le> i\<close> (clipped at the end of the list).\<close>

definition slice :: "'a list \<Rightarrow> nat \<Rightarrow> nat \<Rightarrow> 'a list" where
  "slice xs j i = take (i - j) (drop j xs)"

text \<open>
  \<open>str.lower\<close>, \<open>str.isupper\<close>, \<open>urljoin\<close>, \<open>urlparse\<close>, the iteration order of a
  \<open>set\<close>, the network and the clock are not code of this repository: the functions that
  use them take them as parameters. \<open>lower_tr\<close> and \<open>isupper_tr\<close> are what Python computes
  on the code points the tokenizer admits (\<open>[a-zA-Z\<close> and the twelve Turkish letters\<open>]\<close>)
  and on the rest of ASCII; they instantiate the parameters at concrete inputs.
\<close>

definition lower_cp :: "nat \<Rightarrow> ustr" where
  "lower_cp c =
     (if 65 \<le> c \<and> c \<le> 90 then [c + 32]
      else if c = 199 then [231]
      else if c = 214 then [246]
      else if c = 220 then [252]
      else if c = 286 then [287]
      else if c = 304 then [105, 775]
      else if c = 350 then [351]
      else [c])"

definition lower_tr :: "ustr \<Rightarrow> ustr" where
  "lower_tr w = concat (map lower_cp w)"

definition isupper_tr :: "nat \<Rightarrow> bool" where
  "isupper_tr c \<longleftrightarrow> (65 \<le> c \<and> c \<le> 90) \<or> c \<in> {199, 214, 220, 286, 304, 350}"

section \<open>Syllable inventory\<close>

text \<open>\<open>VOWELS\<close>: a e \<open>U+0131\<close> i o \<open>U+00F6\<close> u \<open>U+00FC\<close>, each a one-character string.\<close>

definition VOWELS :: "ustr list" where
  "VOWELS = [[97], [101], [305], [105], [111], [246], [117], [252]]"

text \<open>\<open>CONSONANTS\<close>: b c \<open>U+00E7\<close> d f g \<open>U+011F\<close> h j k l m n p r s \<open>U+015F\<close> t v y z.\<close>

definition CONSONANTS :: "ustr list" where
  "CONSONANTS =
     [[98], [99], [231], [100], [102], [103], [287], [104], [106], [107], [108],
      [109], [110], [112], [114], [115], [351], [116], [118], [121], [122]]"

text \<open>
  \<open>itertools.product\<close> enumerates tuples with the first component varying slowest, as
  \<open>product_lists\<close> does; \<open>''.join(combo)\<close> concatenates the components.
\<close>

definition v_syllables :: "ustr list" where
  "v_syllables = VOWELS"

definition vc_syllables :: "ustr list" where
  "vc_syllables = map concat (product_lists [VOWELS, CONSONANTS])"

definition cv_syllables :: "ustr list" where
  "cv_syllables = map concat (product_lists [CONSONANTS, VOWELS])"

definition cvc_syllables :: "ustr list" where
  "cvc_syllables = map concat (product_lists [CONSONANTS, VOWELS, CONSONANTS])"

definition cvcc_syllables :: "ustr list" where
  "cvcc_syllables = map concat (product_lists [CONSONANTS, VOWELS, CONSONANTS, CONSONANTS])"

definition generate_all_syllables :: "ustr list" where
  "generate_all_syllables =
     v_syllables @ vc_syllables @ cv_syllables @ cvc_syllables @ cvcc_syllables"

text \<open>A one-character string; a list of alphabets, as the patterns are.\<close>

definition single :: "ustr \<Rightarrow> bool" where
  "single s \<longleftrightarrow> length s = 1"

definition alphabets :: "ustr list list \<Rightarrow> bool" where
  "alphabets xss \<longleftrightarrow> list_all (\<lambda>xs. xs = VOWELS \<or> xs = CONSONANTS) xss"

section \<open>Segmentation\<close>

text \<open>
  The inner loop of \<open>syllabify_word\<close>: the start positions \<open>js\<close> are tried in order;
  the first \<open>j\<close> whose substring is in the inventory and whose \<open>dp[j]\<close> is set writes
  \<open>dp[i]\<close> and breaks.
\<close>

fun scan_starts ::
  "ustr \<Rightarrow> ustr set \<Rightarrow> ustr list option list \<Rightarrow> nat \<Rightarrow> nat list \<Rightarrow> ustr list option list" where
  "scan_starts word S dp i [] = dp"
| "scan_starts word S dp i (j # js) =
     (let syllable = slice word j i in
      if syllable \<in> S \<and> dp ! j \<noteq> None
      then dp[i := Some (the (dp ! j) @ [syllable])]
      else scan_starts word S dp i js)"

text \<open>The table after the outer loop has run for \<open>i = 1, \<dots>, m\<close>.\<close>

definition dp_table :: "ustr \<Rightarrow> ustr set \<Rightarrow> nat \<Rightarrow> ustr list option list" where
  "dp_table word S m =
     fold (\<lambda>i dp. scan_starts word S dp i [nat (max 0 (int i - 4)) ..< i])
       [1 ..< m + 1] ((replicate (length word + 1) None)[0 := Some []])"

definition syllabify_word :: "(ustr \<Rightarrow> ustr) \<Rightarrow> ustr \<Rightarrow> ustr set \<Rightarrow> ustr list option" where
  "syllabify_word lower word0 S =
     (let word = lower word0;
          n = length word;
          dp = dp_table word S n
      in dp ! n)"

text \<open>
  What a decomposition is: syllables of the inventory, each of one to four characters,
  whose concatenation is the word.
\<close>

definition decomposition :: "ustr set \<Rightarrow> ustr \<Rightarrow> ustr list \<Rightarrow> bool" where
  "decomposition S w ss \<longleftrightarrow>
     concat ss = w \<and> list_all (\<lambda>s. s \<in> S \<and> 1 \<le> length s \<and> length s \<le> 4) ss"

section \<open>Tokenizer\<close>

text \<open>The character class \<open>[a-zA-Z\<close> and the twelve Turkish letters\<open>]\<close> of \<open>extract_words\<close>.\<close>

definition is_letter :: "nat \<Rightarrow> bool" where
  "is_letter c \<longleftrightarrow>
     (97 \<le> c \<and> c \<le> 122) \<or> (65 \<le> c \<and> c \<le> 90) \<or>
     c \<in> {231, 199, 287, 286, 305, 304, 246, 214, 351, 350, 252, 220}"

text \<open>\<open>re.findall\<close> of \<open>class+\<close>: the maximal runs of letters, left to right.\<close>

fun letter_runs :: "ustr \<Rightarrow> ustr \<Rightarrow> ustr list" where
  "letter_runs cur [] = (if cur = [] then [] else [cur])"
| "letter_runs cur (c # cs) =
     (if is_letter c then letter_runs (cur @ [c]) cs
      else (if cur = [] then [] else [cur]) @ letter_runs [] cs)"

definition extract_words :: "(ustr \<Rightarrow> ustr) \<Rightarrow> ustr \<Rightarrow> bool \<Rightarrow> ustr list" where
  "extract_words lower text preserve_case =
     (let ws = letter_runs [] text in
      if preserve_case then filter (\<lambda>word. length word > 1) ws
      else map lower (filter (\<lambda>word. length word > 1) ws))"

section \<open>Store\<close>

text \<open>
  One row of an n-gram table, keyed by the n-gram. \<open>frequency\<close> is an SQLite INTEGER;
  the program only ever adds one to it, so it is an unbounded integer here.
\<close>

record stat =
  frequency :: int
  last_word :: ustr
  last_url :: ustr

text \<open>
  The tables. \<open>url_queue\<close> holds its rows in the order of their \<open>id\<close>: AUTOINCREMENT
  gives every new row an id above all earlier ones, so a new row is the last one and
  \<open>ORDER BY id LIMIT 1\<close> is the head.
\<close>

record db =
  syllables :: "ustr \<rightharpoonup> stat"
  monographs :: "ustr \<rightharpoonup> stat"
  digraphs :: "ustr \<rightharpoonup> stat"
  trigraphs :: "ustr \<rightharpoonup> stat"
  words :: "ustr set"
  visited_urls :: "ustr \<rightharpoonup> ustr"
  url_queue :: "ustr list"

text \<open>
  The connection: \<open>working\<close> is what the connection reads and writes, \<open>durable\<close> is what
  the file holds and what is left after a crash. Python's \<open>sqlite3\<close> opens a transaction
  before the first INSERT, UPDATE or DELETE and \<open>commit()\<close> makes it durable.
\<close>

record conn =
  durable :: db
  working :: db

text \<open>The statements the crawler issues.\<close>

datatype sql =
    InsertVisited ustr ustr
  | InsertQueue ustr
  | DeleteQueueHead
  | InsertWord ustr
  | UpsertSyllable ustr ustr ustr
  | UpsertMonograph ustr ustr ustr
  | UpsertDigraph ustr ustr ustr
  | UpsertTrigraph ustr ustr ustr
  | Commit

text \<open>
  \<open>INSERT \<dots> VALUES (?, 1, ?, ?) ON CONFLICT(key) DO UPDATE SET frequency = frequency + 1,
  last_word = excluded.last_word, last_url = excluded.last_url\<close>.
\<close>

definition upsert :: "(ustr \<rightharpoonup> stat) \<Rightarrow> ustr \<Rightarrow> ustr \<Rightarrow> ustr \<Rightarrow> (ustr \<rightharpoonup> stat)" where
  "upsert tbl key word url =
     (case tbl key of
        None \<Rightarrow> tbl(key \<mapsto> \<lparr>frequency = 1, last_word = word, last_url = url\<rparr>)
      | Some r \<Rightarrow> tbl(key \<mapsto> r\<lparr>frequency := frequency r + 1, last_word := word, last_url := url\<rparr>))"

definition update_syllable :: "ustr \<Rightarrow> ustr \<Rightarrow> ustr \<Rightarrow> db \<Rightarrow> db" where
  "update_syllable syllable word url d = d\<lparr>syllables := upsert (syllables d) syllable word url\<rparr>"

definition update_monograph :: "ustr \<Rightarrow> ustr \<Rightarrow> ustr \<Rightarrow> db \<Rightarrow> db" where
  "update_monograph monograph word url d =
     d\<lparr>monographs := upsert (monographs d) monograph word url\<rparr>"

definition update_digraph :: "ustr \<Rightarrow> ustr \<Rightarrow> ustr \<Rightarrow> db \<Rightarrow> db" where
  "update_digraph digraph word url d = d\<lparr>digraphs := upsert (digraphs d) digraph word url\<rparr>"

definition update_trigraph :: "ustr \<Rightarrow> ustr \<Rightarrow> ustr \<Rightarrow> db \<Rightarrow> db" where
  "update_trigraph trigraph word url d = d\<lparr>trigraphs := upsert (trigraphs d) trigraph word url\<rparr>"

text \<open>What one statement does to the tables (\<open>OR IGNORE\<close>: a row whose key exists stays).\<close>

fun exec_db :: "sql \<Rightarrow> db \<Rightarrow> db" where
  "exec_db (InsertVisited url crawled_at) d =
     (if visited_urls d url = None then d\<lparr>visited_urls := (visited_urls d)(url \<mapsto> crawled_at)\<rparr>
      else d)"
| "exec_db (InsertQueue url) d =
     (if url \<in> set (url_queue d) then d else d\<lparr>url_queue := url_queue d @ [url]\<rparr>)"
| "exec_db DeleteQueueHead d = d\<lparr>url_queue := tl (url_queue d)\<rparr>"
| "exec_db (InsertWord word) d = d\<lparr>words := insert word (words d)\<rparr>"
| "exec_db (UpsertSyllable k word url) d = update_syllable k word url d"
| "exec_db (UpsertMonograph k word url) d = update_monograph k word url d"
| "exec_db (UpsertDigraph k word url) d = update_digraph k word url d"
| "exec_db (UpsertTrigraph k word url) d = update_trigraph k word url d"
| "exec_db Commit d = d"

fun exec :: "sql \<Rightarrow> conn \<Rightarrow> conn" where
  "exec Commit c = c\<lparr>durable := working c\<rparr>"
| "exec s c = c\<lparr>working := exec_db s (working c)\<rparr>"

definition run :: "sql list \<Rightarrow> conn \<Rightarrow> conn" where
  "run stmts c = fold exec stmts c"


definition is_url_visited :: "conn \<Rightarrow> ustr \<Rightarrow> bool" where
  "is_url_visited c url \<longleftrightarrow> visited_urls (working c) url \<noteq> None"

definition mark_url_visited_stmts :: "ustr \<Rightarrow> ustr \<Rightarrow> sql list" where
  "mark_url_visited_stmts url now = [InsertVisited url now, Commit]"

definition mark_url_visited :: "ustr \<Rightarrow> ustr \<Rightarrow> conn \<Rightarrow> conn" where
  "mark_url_visited url now c = run (mark_url_visited_stmts url now) c"

definition add_urls_to_queue_stmts :: "ustr list \<Rightarrow> sql list" where
  "add_urls_to_queue_stmts urls = map InsertQueue urls @ [Commit]"

definition add_urls_to_queue :: "ustr list \<Rightarrow> conn \<Rightarrow> conn" where
  "add_urls_to_queue urls c = run (add_urls_to_queue_stmts urls) c"

definition get_next_url :: "conn \<Rightarrow> ustr option \<times> conn" where
  "get_next_url c =
     (case url_queue (working c) of
        [] \<Rightarrow> (None, c)
      | url # _ \<Rightarrow> (Some url, run [DeleteQueueHead, Commit] c))"

definition extract_monographs :: "ustr \<Rightarrow> ustr list" where
  "extract_monographs word = map (\<lambda>c. [c]) word"

definition extract_digraphs :: "ustr \<Rightarrow> ustr list" where
  "extract_digraphs word = map (\<lambda>i. slice word i (i + 2)) [0 ..< length word - 1]"

definition extract_trigraphs :: "ustr \<Rightarrow> ustr list" where
  "extract_trigraphs word = map (\<lambda>i. slice word i (i + 3)) [0 ..< length word - 2]"

text \<open>The tables of a new database file, and a connection to it.\<close>

definition empty_db :: db where
  "empty_db =
     \<lparr>syllables = Map.empty, monographs = Map.empty, digraphs = Map.empty,
      trigraphs = Map.empty, words = {}, visited_urls = Map.empty, url_queue = []\<rparr>"

definition connect :: "db \<Rightarrow> conn" where
  "connect d = \<lparr>durable = d, working = d\<rparr>"


section \<open>Environment\<close>

record parsed_url =
  scheme :: ustr
  netloc :: ustr

text \<open>
  The library and the outside world. \<open>urljoin\<close> and \<open>urlparse\<close> raise \<open>ValueError\<close>
  on some malformed urls: \<open>None\<close>. \<open>set_order\<close> is the order in which Python iterates
  over \<open>set(words)\<close>. \<open>page n url\<close> is what the \<open>n\<close>-th request of the session gets for
  \<open>url\<close>: the visible text of the document and the \<open>href\<close> of every anchor in document
  order, or \<open>None\<close> when the request or the parser raises. \<open>now n\<close> is the clock then.
\<close>

record env =
  str_lower :: "ustr \<Rightarrow> ustr"
  str_isupper :: "nat \<Rightarrow> bool"
  urljoin :: "ustr \<Rightarrow> ustr \<Rightarrow> ustr option"
  urlparse :: "ustr \<Rightarrow> parsed_url option"
  set_order :: "ustr list \<Rightarrow> ustr list"
  page :: "nat \<Rightarrow> ustr \<Rightarrow> (ustr \<times> ustr list) option"
  now :: "nat \<Rightarrow> ustr"

section \<open>Link extraction\<close>

definition turkish_patterns :: "ustr list" where
  "turkish_patterns =
     map ustr [''.tr/'', ''.tr?'', ''.tr#'', ''tr.wikipedia.org'', ''/tr/'', ''/tr?'',
               ''turkish'', ''turkiye'', ''istanbul'']"

definition is_turkish_domain :: "env \<Rightarrow> ustr \<Rightarrow> bool" where
  "is_turkish_domain e url =
     (let url_lower = str_lower e url in list_ex (\<lambda>pattern. sublist pattern url_lower) turkish_patterns)"

text \<open>The condition under which \<open>extract_links\<close> appends an absolute url.\<close>

definition keep_link :: "env \<Rightarrow> conn \<Rightarrow> parsed_url \<Rightarrow> parsed_url \<Rightarrow> ustr \<Rightarrow> bool" where
  "keep_link e c parsed_base parsed absolute_url \<longleftrightarrow>
     (netloc parsed = netloc parsed_base \<or> is_turkish_domain e absolute_url) \<and>
     scheme parsed \<in> {ustr ''http'', ustr ''https''} \<and>
     \<not> is_url_visited c absolute_url"

fun extract_links_loop :: "env \<Rightarrow> conn \<Rightarrow> ustr \<Rightarrow> ustr list \<Rightarrow> ustr list \<Rightarrow> ustr list option" where
  "extract_links_loop e c base_url [] links = Some links"
| "extract_links_loop e c base_url (href # hrefs) links =
     (case urljoin e base_url href of
        None \<Rightarrow> None
      | Some absolute_url \<Rightarrow>
          (case urlparse e absolute_url of
             None \<Rightarrow> None
           | Some parsed \<Rightarrow>
               (case urlparse e base_url of
                  None \<Rightarrow> None
                | Some parsed_base \<Rightarrow>
                    extract_links_loop e c base_url hrefs
                      (if keep_link e c parsed_base parsed absolute_url
                       then links @ [absolute_url] else links))))"

definition extract_links :: "env \<Rightarrow> conn \<Rightarrow> ustr list \<Rightarrow> ustr \<Rightarrow> ustr list option" where
  "extract_links e c hrefs base_url =
     map_option (take 50) (extract_links_loop e c base_url hrefs [])"

text \<open>\<open>crawl_page\<close>: any exception gives the empty text and no links.\<close>

definition crawl_page :: "env \<Rightarrow> conn \<Rightarrow> nat \<Rightarrow> ustr \<Rightarrow> ustr \<times> ustr list" where
  "crawl_page e c n url =
     (case page e n url of
        None \<Rightarrow> ([], [])
      | Some (text, hrefs) \<Rightarrow>
          (case extract_links e c hrefs url of
             None \<Rightarrow> ([], [])
           | Some links \<Rightarrow> (text, links)))"

text \<open>
  The filter of the specification on an absolute url: http or https, not visited, and on
  the domain of the page or Turkish by the heuristic.
\<close>

definition kept :: "env \<Rightarrow> conn \<Rightarrow> ustr \<Rightarrow> ustr \<Rightarrow> bool" where
  "kept e c base_url u =
     (case (urlparse e u, urlparse e base_url) of
        (Some p, Some pb) \<Rightarrow>
          scheme p \<in> {ustr ''http'', ustr ''https''} \<and>
          \<not> is_url_visited c u \<and>
          (netloc p = netloc pb \<or> is_turkish_domain e u)
      | _ \<Rightarrow> False)"

section \<open>Processing one page\<close>

text \<open>The statements \<open>process_text\<close> issues for one word of \<open>unique_words\<close>.\<close>

definition word_stmts :: "env \<Rightarrow> ustr set \<Rightarrow> ustr \<Rightarrow> ustr \<Rightarrow> sql list" where
  "word_stmts e S url word =
     (if word \<noteq> [] \<and> str_isupper e (hd word) then []
      else
        (let word_lower = str_lower e word in
         case syllabify_word (str_lower e) word_lower S of
           None \<Rightarrow> []
         | Some sylls \<Rightarrow>
             if sylls = [] then []
             else
               InsertWord word_lower #
               map (\<lambda>syllable. UpsertSyllable syllable word_lower url) sylls @
               map (\<lambda>monograph. UpsertMonograph monograph word_lower url)
                 (extract_monographs word_lower) @
               map (\<lambda>digraph. UpsertDigraph digraph word_lower url)
                 (extract_digraphs word_lower) @
               map (\<lambda>trigraph. UpsertTrigraph trigraph word_lower url)
                 (extract_trigraphs word_lower)))"

text \<open>The body of \<open>process_text\<close> before its \<open>commit()\<close>.\<close>

definition process_text_body :: "env \<Rightarrow> ustr set \<Rightarrow> ustr \<Rightarrow> ustr \<Rightarrow> sql list" where
  "process_text_body e S text url =
     (let words_with_case = extract_words (str_lower e) text True;
          unique_words = set_order e words_with_case
      in concat (map (word_stmts e S url) unique_words))"

definition process_text_stmts :: "env \<Rightarrow> ustr set \<Rightarrow> ustr \<Rightarrow> ustr \<Rightarrow> sql list" where
  "process_text_stmts e S text url = process_text_body e S text url @ [Commit]"

definition process_text :: "env \<Rightarrow> ustr set \<Rightarrow> ustr \<Rightarrow> ustr \<Rightarrow> conn \<Rightarrow> conn" where
  "process_text e S text url c = run (process_text_stmts e S text url) c"


definition page_stmts ::
  "env \<Rightarrow> ustr set \<Rightarrow> ustr \<Rightarrow> ustr \<Rightarrow> ustr \<Rightarrow> ustr list \<Rightarrow> sql list" where
  "page_stmts e S url crawled_at text links =
     mark_url_visited_stmts url crawled_at @
     (if text \<noteq> [] then process_text_stmts e S text url else []) @
     (if links \<noteq> [] then add_urls_to_queue_stmts links else [])"

section \<open>Crawl loop\<close>

text \<open>
  The state of a session: the connection, \<open>pages_this_session\<close>, and the urls requested
  so far in the order of the requests (a trace of the calls of \<open>crawl_page\<close>).
\<close>

record crawl_state =
  cs_conn :: conn
  pages_this_session :: nat
  fetched :: "ustr list"

datatype outcome = Continue | Stop

text \<open>
  One pass through the body of \<open>while True\<close>. \<open>Stop\<close> is a \<open>break\<close>, or the
  \<open>ZeroDivisionError\<close> of \<open>pages_this_session % save_interval\<close> when \<open>save_interval\<close>
  is 0. A \<open>KeyboardInterrupt\<close> ends the session at some point of a pass.
\<close>

definition crawl_iteration ::
  "env \<Rightarrow> ustr set \<Rightarrow> int \<Rightarrow> int \<Rightarrow> crawl_state \<Rightarrow> outcome \<times> crawl_state" where
  "crawl_iteration e S max_pages save_interval st =
     (if max_pages > 0 \<and> int (pages_this_session st) \<ge> max_pages then (Stop, st)
      else
        (case get_next_url (cs_conn st) of
           (None, c) \<Rightarrow> (Stop, st\<lparr>cs_conn := c\<rparr>)
         | (Some url, c) \<Rightarrow>
             if url = [] then (Stop, st\<lparr>cs_conn := c\<rparr>)
             else if is_url_visited c url then (Continue, st\<lparr>cs_conn := c\<rparr>)
             else
               (let n = pages_this_session st + 1;
                    (text, links) = crawl_page e c n url;
                    c1 = mark_url_visited url (now e n) c;
                    c2 = (if text \<noteq> [] then process_text e S text url c1 else c1);
                    c3 = (if links \<noteq> [] then add_urls_to_queue links c2 else c2)
                in (if save_interval = 0 then Stop else Continue,
                    \<lparr>cs_conn = c3, pages_this_session = n, fetched = fetched st @ [url]\<rparr>))))"

text \<open>The loop, cut after at most \<open>fuel\<close> passes.\<close>

fun crawl_loop ::
  "nat \<Rightarrow> env \<Rightarrow> ustr set \<Rightarrow> int \<Rightarrow> int \<Rightarrow> crawl_state \<Rightarrow> crawl_state" where
  "crawl_loop 0 e S max_pages save_interval st = st"
| "crawl_loop (Suc fuel) e S max_pages save_interval st =
     (case crawl_iteration e S max_pages save_interval st of
        (Stop, st') \<Rightarrow> st'
      | (Continue, st') \<Rightarrow> crawl_loop fuel e S max_pages save_interval st')"

definition crawl_continuous ::
  "nat \<Rightarrow> env \<Rightarrow> ustr set \<Rightarrow> ustr list \<Rightarrow> int \<Rightarrow> int \<Rightarrow> conn \<Rightarrow> crawl_state" where
  "crawl_continuous fuel e S seed_urls max_pages save_interval c =
     (let st = crawl_loop fuel e S max_pages save_interval
                 \<lparr>cs_conn = add_urls_to_queue seed_urls c, pages_this_session = 0, fetched = []\<rparr>
      in st\<lparr>cs_conn := exec Commit (cs_conn st)\<rparr>)"

text \<open>
  What holds of a session at every pass, for the urls \<open>V0\<close> that were visited when it
  began: no url was requested twice, every requested url is marked visited, none of them
  was visited before the session, and the visited set has lost nothing.
\<close>

definition session_inv :: "ustr set \<Rightarrow> crawl_state \<Rightarrow> bool" where
  "session_inv V0 st \<longleftrightarrow>
     distinct (fetched st) \<and>
     set (fetched st) \<subseteq> dom (visited_urls (working (cs_conn st))) \<and>
     set (fetched st) \<inter> V0 = {} \<and>
     V0 \<subseteq> dom (visited_urls (working (cs_conn st)))"

section \<open>A concrete environment\<close>

text \<open>
  For the concrete runs below: what \<open>urlparse\<close> returns on an absolute url of the form
  \<open>scheme://netloc/path\<close>, and \<open>urljoin\<close> on an \<open>href\<close> that is such a url (it is
  returned as it is). Python may iterate over a set in any order; here in the order of
  first occurrence. The pages and the clock are given by the run.
\<close>

definition simple_urlparse :: "ustr \<Rightarrow> parsed_url option" where
  "simple_urlparse url =
     Some \<lparr>scheme = takeWhile (\<lambda>c. c \<noteq> 58) url,
           netloc = takeWhile (\<lambda>c. c \<noteq> 47) (drop 3 (dropWhile (\<lambda>c. c \<noteq> 58) url))\<rparr>"

definition example_env :: "(nat \<Rightarrow> ustr \<Rightarrow> (ustr \<times> ustr list) option) \<Rightarrow> env" where
  "example_env pages =
     \<lparr>str_lower = lower_tr, str_isupper = isupper_tr,
      urljoin = (\<lambda>base_url href. Some href), urlparse = simple_urlparse,
      set_order = remdups, page = pages, now = (\<lambda>n. ustr ''2024-01-01T00:00:00'')\<rparr>"

text \<open>
  A site of two pages: \<open>http://a.tr/\<close> reads \<open>Baba baba\<close> and links to itself and to
  \<open>http://a.tr/x\<close>, which is empty. Every other request fails.
\<close>

definition two_pages :: "nat \<Rightarrow> ustr \<Rightarrow> (ustr \<times> ustr list) option" where
  "two_pages n url =
     (if url = ustr ''http://a.tr/''
      then Some (ustr ''Baba baba'', [ustr ''http://a.tr/'', ustr ''http://a.tr/x''])
      else if url = ustr ''http://a.tr/x'' then Some ([], [])
      else None)"

text \<open>
  A session after its first page: \<open>http://a.tr/\<close> has been requested and marked
  visited, and the link of the page to itself has put it on the frontier again.
\<close>

definition revisit_state :: crawl_state where
  "revisit_state =
     \<lparr>cs_conn = connect (empty_db
        \<lparr>visited_urls := [ustr ''http://a.tr/'' \<mapsto> ustr ''2024-01-01T00:00:00''],
         url_queue := [ustr ''http://a.tr/'']\<rparr>),
      pages_this_session = 1, fetched = [ustr ''http://a.tr/'']\<rparr>"

section \<open>The segmentation table\<close>

lemma scan_starts_length [simp]: "length (scan_starts word S dp i js) = length dp"
  by (induction js) (simp_all add: Let_def)

lemma scan_starts_other: "p \<noteq> i \<Longrightarrow> scan_starts word S dp i js ! p = dp ! p"
  by (induction js) (simp_all add: Let_def)

lemma scan_starts_at:
  "i < length dp \<Longrightarrow>
   scan_starts word S dp i js ! i =
     (case find (\<lambda>j. slice word j i \<in> S \<and> dp ! j \<noteq> None) js of
        None \<Rightarrow> dp ! i
      | Some j \<Rightarrow> Some (the (dp ! j) @ [slice word j i]))"
  by (induction js) (auto simp: Let_def)

lemma range_start: "nat (max 0 (int i - 4)) = i - 4"
  by simp

lemma dp_table_Suc:
  "dp_table word S (Suc m) =
     scan_starts word S (dp_table word S m) (Suc m) [Suc m - 4 ..< Suc m]"
  unfolding dp_table_def by (simp del: upt_Suc add: upt_Suc_append range_start)

lemma dp_table_0: "dp_table word S 0 = (replicate (length word + 1) None)[0 := Some []]"
  by (simp add: dp_table_def)

lemma dp_table_length [simp]: "length (dp_table word S m) = length word + 1"
  by (induction m) (simp_all add: dp_table_0 dp_table_Suc)

lemma dp_table_beyond: "m < p \<Longrightarrow> p \<le> length word \<Longrightarrow> dp_table word S m ! p = None"
proof (induction m)
  case 0
  then show ?case by (simp add: dp_table_0)
next
  case (Suc m)
  then show ?case by (simp add: dp_table_Suc scan_starts_other)
qed

lemma dp_table_stable: "p \<le> m \<Longrightarrow> dp_table word S m ! p = dp_table word S p ! p"
proof (induction m)
  case 0
  then show ?case by simp
next
  case (Suc m)
  show ?case
  proof (cases "p = Suc m")
    case True
    then show ?thesis by simp
  next
    case False
    with Suc have "p \<le> m" by simp
    with Suc.IH False show ?thesis by (simp add: dp_table_Suc scan_starts_other)
  qed
qed

lemma decomposition_snoc:
  "decomposition S w ss \<Longrightarrow> s \<in> S \<Longrightarrow> 1 \<le> length s \<Longrightarrow> length s \<le> 4 \<Longrightarrow>
   decomposition S (w @ s) (ss @ [s])"
  by (simp add: decomposition_def)

lemma take_slice: "j \<le> i \<Longrightarrow> take j w @ slice w j i = take i w"
  unfolding slice_def
  by (metis le_add_diff_inverse take_add)

lemma slice_length: "j \<le> i \<Longrightarrow> i \<le> length w \<Longrightarrow> length (slice w j i) = i - j"
  by (simp add: slice_def)

lemma dp_table_sound:
  "p \<le> m \<Longrightarrow> m \<le> length word \<Longrightarrow> dp_table word S m ! p = Some ss \<Longrightarrow>
   decomposition S (take p word) ss"
proof (induction p arbitrary: m ss rule: less_induct)
  case (less p)
  have at: "dp_table word S p ! p = Some ss"
    using less.prems dp_table_stable [of p m word S] by simp
  show ?case
  proof (cases p)
    case 0
    with at show ?thesis by (simp add: dp_table_0 decomposition_def)
  next
    case (Suc q)
    let ?dp = "dp_table word S q"
    let ?P = "\<lambda>j. slice word j p \<in> S \<and> ?dp ! j \<noteq> None"
    have pl: "p \<le> length word" using less.prems by simp
    have old: "?dp ! p = None" using Suc pl by (simp add: dp_table_beyond)
    have eq: "dp_table word S p ! p =
        (case find ?P [p - 4 ..< p] of None \<Rightarrow> ?dp ! p
         | Some j \<Rightarrow> Some (the (?dp ! j) @ [slice word j p]))"
      using pl unfolding Suc dp_table_Suc by (subst scan_starts_at) simp_all
    from at eq old obtain j where f: "find ?P [p - 4 ..< p] = Some j"
      and ss: "ss = the (?dp ! j) @ [slice word j p]"
      by (auto split: option.splits)
    from f have jr: "p - 4 \<le> j" "j < p" and jS: "slice word j p \<in> S" and jd: "?dp ! j \<noteq> None"
      by (auto simp: find_Some_iff)
    from jd obtain d where d: "?dp ! j = Some d" by auto
    have "j \<le> q" using jr Suc by simp
    moreover have "q \<le> length word" using pl Suc by simp
    ultimately have "decomposition S (take j word) d"
      using less.IH [of j q d] jr d by simp
    moreover have "length (slice word j p) = p - j" using jr pl by (simp add: slice_length)
    ultimately have "decomposition S (take j word @ slice word j p) (d @ [slice word j p])"
      using jS jr by (intro decomposition_snoc) simp_all
    then show ?thesis using ss d jr by (simp add: take_slice)
  qed
qed

lemma decomposition_last:
  assumes "decomposition S w ss" "w \<noteq> []"
  obtains s rest where "ss = rest @ [s]" "s \<in> S" "1 \<le> length s" "length s \<le> 4"
    "decomposition S (take (length w - length s) w) rest" "length s \<le> length w"
proof -
  from assms have "ss \<noteq> []" by (auto simp: decomposition_def)
  then obtain rest s where ss: "ss = rest @ [s]" by (metis rev_exhaust)
  with assms have s: "s \<in> S" "1 \<le> length s" "length s \<le> 4" and w: "w = concat rest @ s"
    and r: "list_all (\<lambda>s. s \<in> S \<and> 1 \<le> length s \<and> length s \<le> 4) rest"
    by (auto simp: decomposition_def)
  have "take (length w - length s) w = concat rest" using w by simp
  with r have "decomposition S (take (length w - length s) w) rest"
    by (simp add: decomposition_def)
  moreover have "length s \<le> length w" using w by simp
  ultimately show ?thesis using that ss s by blast
qed

lemma dp_table_complete:
  "p \<le> length word \<Longrightarrow> decomposition S (take p word) ss \<Longrightarrow> dp_table word S p ! p \<noteq> None"
proof (induction p arbitrary: ss rule: less_induct)
  case (less p)
  show ?case
  proof (cases p)
    case 0
    then show ?thesis by (simp add: dp_table_0)
  next
    case (Suc q)
    let ?dp = "dp_table word S q"
    let ?P = "\<lambda>j. slice word j p \<in> S \<and> ?dp ! j \<noteq> None"
    have pl: "p \<le> length word" using less.prems by simp
    have ne: "take p word \<noteq> []" using Suc pl by auto
    have lp: "length (take p word) = p" using pl by simp
    from less.prems(2) ne obtain s rest where
      ss: "ss = rest @ [s]" and s: "s \<in> S" "1 \<le> length s" "length s \<le> 4"
      and r: "decomposition S (take (length (take p word) - length s) (take p word)) rest"
      and ls: "length s \<le> length (take p word)"
      by (rule decomposition_last)
    define j where "j = p - length s"
    have jr: "p - 4 \<le> j" "j < p" using s ls lp Suc by (auto simp: j_def)
    have tj: "take j (take p word) = take j word" using jr by (simp add: min_def)
    from r have rj: "decomposition S (take j word) rest" using lp tj by (simp add: j_def)
    have "take p word = concat ss" using less.prems(2) by (simp add: decomposition_def)
    then have cs: "take p word = concat rest @ s" using ss by simp
    have cr: "concat rest = take j word" using rj by (simp add: decomposition_def)
    have sl: "slice word j p = s"
    proof -
      have "take j word @ slice word j p = take p word"
        using jr by (intro take_slice) simp
      also have "\<dots> = take j word @ s"
        unfolding cs cr ..
      finally show ?thesis by simp
    qed
    have "dp_table word S j ! j \<noteq> None" using less.IH [of j rest] jr pl rj by simp
    moreover have "j \<le> q" using jr Suc by simp
    ultimately have dj: "?dp ! j \<noteq> None" using dp_table_stable [of j q word S] by simp
    have "j \<in> set [p - 4 ..< p]" using jr by simp
    with sl s dj have "\<exists>x\<in>set [p - 4 ..< p]. ?P x" by blast
    then have "find ?P [p - 4 ..< p] \<noteq> None" unfolding find_None_iff by blast
    moreover have "dp_table word S p ! p =
        (case find ?P [p - 4 ..< p] of None \<Rightarrow> ?dp ! p
         | Some j \<Rightarrow> Some (the (?dp ! j) @ [slice word j p]))"
      using pl unfolding Suc dp_table_Suc by (subst scan_starts_at) simp_all
    ultimately show ?thesis by (auto split: option.splits)
  qed
qed

section \<open>The inventory\<close>

lemma length_product_lists:
  "length (product_lists xss) = prod_list (map length xss)"
proof (induction xss)
  case Nil
  then show ?case by simp
next
  case (Cons xs xss)
  have "length (concat (map (\<lambda>x. map ((#) x) (product_lists xss)) xs)) =
        length xs * length (product_lists xss)"
    by (induction xs) simp_all
  with Cons show ?case by simp
qed

lemma single_VOWELS: "s \<in> set VOWELS \<Longrightarrow> single s"
  by (auto simp: VOWELS_def single_def)

lemma single_CONSONANTS: "s \<in> set CONSONANTS \<Longrightarrow> single s"
  by (auto simp: CONSONANTS_def single_def)

lemma distinct_VOWELS: "distinct VOWELS"
  by (simp add: VOWELS_def)

lemma distinct_CONSONANTS: "distinct CONSONANTS"
  by (simp add: CONSONANTS_def)

lemma VOWELS_CONSONANTS_disjoint: "v \<in> set VOWELS \<Longrightarrow> c \<in> set CONSONANTS \<Longrightarrow> v \<noteq> c"
  by (auto simp: VOWELS_def CONSONANTS_def)

lemma length_concat_singles: "list_all single xs \<Longrightarrow> length (concat xs) = length xs"
  by (induction xs) (simp_all add: single_def)

lemma concat_singles_inj:
  "list_all single xs \<Longrightarrow> list_all single ys \<Longrightarrow> concat xs = concat ys \<Longrightarrow> xs = ys"
proof (induction xs arbitrary: ys)
  case Nil
  then show ?case by (cases ys) (auto simp: single_def)
next
  case (Cons x xs)
  from Cons.prems(1) have xs: "list_all single xs" and "single x" by simp_all
  then obtain a where x: "x = [a]"
    by (cases x) (auto simp: single_def)
  show ?case
  proof (cases ys)
    case Nil
    with Cons.prems(3) x show ?thesis by simp
  next
    case (Cons y ys')
    with Cons.prems(2) have ys': "list_all single ys'" and "single y" by simp_all
    then obtain b where y: "y = [b]"
      by (cases y) (auto simp: single_def)
    from Cons.prems(3) x y Cons have "a = b" and "concat xs = concat ys'" by simp_all
    with Cons.IH [OF xs ys'] x y Cons show ?thesis by simp
  qed
qed

text \<open>What holds of every letter of the alphabets holds of every component of a tuple.\<close>

lemma product_lists_all:
  assumes "combo \<in> set (product_lists xss)" and "\<And>xs s. xs \<in> set xss \<Longrightarrow> s \<in> set xs \<Longrightarrow> P s"
  shows "list_all P combo"
proof -
  from assms(1) have "list_all2 (\<lambda>x ys. x \<in> set ys) combo xss"
    by (simp add: product_lists_set)
  then show ?thesis using assms(2)
    by (induction combo xss rule: list_all2_induct) auto
qed

lemma alphabets_all:
  assumes "alphabets xss" and "combo \<in> set (product_lists xss)"
    and "\<And>s. s \<in> set VOWELS \<Longrightarrow> P s" and "\<And>s. s \<in> set CONSONANTS \<Longrightarrow> P s"
  shows "list_all P combo"
  using assms(2)
proof (rule product_lists_all)
  fix xs s assume "xs \<in> set xss" and s: "s \<in> set xs"
  with assms(1) have "xs = VOWELS \<or> xs = CONSONANTS"
    by (auto simp: alphabets_def list_all_iff)
  with s assms(3,4) show "P s" by blast
qed

lemma alphabets_singles:
  "alphabets xss \<Longrightarrow> combo \<in> set (product_lists xss) \<Longrightarrow> list_all single combo"
  by (rule alphabets_all) (simp_all add: single_VOWELS single_CONSONANTS)

lemma pattern_length:
  assumes "alphabets xss" and "s \<in> set (map concat (product_lists xss))"
  shows "length s = length xss"
proof -
  from assms(2) obtain combo where c: "combo \<in> set (product_lists xss)" and s: "s = concat combo"
    by auto
  from alphabets_singles [OF assms(1) c] have "length (concat combo) = length combo"
    by (rule length_concat_singles)
  with c s show ?thesis by (simp add: in_set_product_lists_length)
qed

lemma pattern_distinct:
  assumes "alphabets xss"
  shows "distinct (map concat (product_lists xss))"
proof -
  have "\<forall>xs\<in>set xss. distinct xs"
    using assms by (auto simp: alphabets_def list_all_iff distinct_VOWELS distinct_CONSONANTS)
  then have "distinct (product_lists xss)" by (rule distinct_product_lists)
  moreover have "inj_on concat (set (product_lists xss))"
    by (rule inj_onI) (blast intro: concat_singles_inj alphabets_singles [OF assms])
  ultimately show ?thesis by (simp add: distinct_map)
qed

lemma alphabets_simps:
  "alphabets [VOWELS, CONSONANTS]" "alphabets [CONSONANTS, VOWELS]"
  "alphabets [CONSONANTS, VOWELS, CONSONANTS]"
  "alphabets [CONSONANTS, VOWELS, CONSONANTS, CONSONANTS]"
  by (simp_all add: alphabets_def)

lemma length_alphabets [simp]: "length VOWELS = 8" "length CONSONANTS = 21"
  by (simp_all add: VOWELS_def CONSONANTS_def)

lemma pattern_lengths:
  "s \<in> set v_syllables \<Longrightarrow> length s = 1"
  "s \<in> set vc_syllables \<Longrightarrow> length s = 2"
  "s \<in> set cv_syllables \<Longrightarrow> length s = 2"
  "s \<in> set cvc_syllables \<Longrightarrow> length s = 3"
  "s \<in> set cvcc_syllables \<Longrightarrow> length s = 4"
proof -
  show "s \<in> set v_syllables \<Longrightarrow> length s = 1"
    using single_VOWELS [of s] by (simp add: v_syllables_def single_def)
  show "s \<in> set vc_syllables \<Longrightarrow> length s = 2"
    unfolding vc_syllables_def by (drule pattern_length [OF alphabets_simps(1)]) simp
  show "s \<in> set cv_syllables \<Longrightarrow> length s = 2"
    unfolding cv_syllables_def by (drule pattern_length [OF alphabets_simps(2)]) simp
  show "s \<in> set cvc_syllables \<Longrightarrow> length s = 3"
    unfolding cvc_syllables_def by (drule pattern_length [OF alphabets_simps(3)]) simp
  show "s \<in> set cvcc_syllables \<Longrightarrow> length s = 4"
    unfolding cvcc_syllables_def by (drule pattern_length [OF alphabets_simps(4)]) simp
qed

lemma pattern_counts:
  "length v_syllables = 8" "length vc_syllables = 168" "length cv_syllables = 168"
  "length cvc_syllables = 3528" "length cvcc_syllables = 74088"
  by (simp_all only: v_syllables_def vc_syllables_def cv_syllables_def cvc_syllables_def
        cvcc_syllables_def length_map length_product_lists) simp_all

lemma vc_cv_disjoint: "s \<in> set vc_syllables \<Longrightarrow> s \<notin> set cv_syllables"
proof
  assume vc: "s \<in> set vc_syllables" and cv: "s \<in> set cv_syllables"
  from vc obtain v c where v: "v \<in> set VOWELS" and "c \<in> set CONSONANTS" and s1: "s = v @ c"
    by (auto simp: vc_syllables_def)
  from cv obtain c' v' where c': "c' \<in> set CONSONANTS" and "v' \<in> set VOWELS" and s2: "s = c' @ v'"
    by (auto simp: cv_syllables_def)
  from v c' have "length v = 1" "length c' = 1"
    using single_VOWELS single_CONSONANTS by (auto simp: single_def)
  with s1 s2 have "v = c'" by (metis append_eq_append_conv)
  with v c' show False using VOWELS_CONSONANTS_disjoint by blast
qed

lemma disjoint_by_length:
  assumes "\<And>s. s \<in> A \<Longrightarrow> length s = m" and "\<And>s. s \<in> B \<Longrightarrow> length s = n" and "m \<noteq> n"
  shows "A \<inter> B = {}"
  using assms by fastforce

lemma generate_all_syllables_distinct: "distinct generate_all_syllables"
proof -
  have d: "distinct v_syllables" "distinct vc_syllables" "distinct cv_syllables"
      "distinct cvc_syllables" "distinct cvcc_syllables"
    unfolding v_syllables_def vc_syllables_def cv_syllables_def cvc_syllables_def
      cvcc_syllables_def
    by (rule distinct_VOWELS | (rule pattern_distinct, rule alphabets_simps))+
  have v: "set v_syllables \<inter> set vc_syllables = {}" "set v_syllables \<inter> set cv_syllables = {}"
      "set v_syllables \<inter> set cvc_syllables = {}" "set v_syllables \<inter> set cvcc_syllables = {}"
    by (rule disjoint_by_length [where m = 1], erule pattern_lengths, erule pattern_lengths, simp)+
  have vc: "set vc_syllables \<inter> set cvc_syllables = {}"
      "set vc_syllables \<inter> set cvcc_syllables = {}"
    by (rule disjoint_by_length [where m = 2], erule pattern_lengths, erule pattern_lengths, simp)+
  have cv: "set cv_syllables \<inter> set cvc_syllables = {}"
      "set cv_syllables \<inter> set cvcc_syllables = {}"
    by (rule disjoint_by_length [where m = 2], erule pattern_lengths, erule pattern_lengths, simp)+
  have cvc: "set cvc_syllables \<inter> set cvcc_syllables = {}"
    by (rule disjoint_by_length [where m = 3], erule pattern_lengths, erule pattern_lengths, simp)
  have x: "set vc_syllables \<inter> set cv_syllables = {}"
    using vc_cv_disjoint by blast
  show ?thesis
    unfolding generate_all_syllables_def
    by (simp add: d v vc cv cvc x Int_Un_distrib)
qed

text \<open>The inventory is lowercase: \<open>str.lower\<close> leaves every entry as it is.\<close>

lemma lower_tr_append: "lower_tr (xs @ ys) = lower_tr xs @ lower_tr ys"
  by (simp add: lower_tr_def)

lemma lower_cp_idem: "lower_tr (lower_cp c) = lower_cp c"
  by (simp add: lower_tr_def lower_cp_def)

lemma lower_tr_idem: "lower_tr (lower_tr w) = lower_tr w"
proof (induction w)
  case Nil
  then show ?case by (simp add: lower_tr_def)
next
  case (Cons c w)
  have "lower_tr (c # w) = lower_cp c @ lower_tr w" by (simp add: lower_tr_def)
  with Cons show ?case by (simp add: lower_tr_append lower_cp_idem)
qed

lemma lower_tr_concat: "list_all (\<lambda>s. lower_tr s = s) ss \<Longrightarrow> lower_tr (concat ss) = concat ss"
  by (induction ss) (simp_all add: lower_tr_append, simp add: lower_tr_def)

lemma lower_tr_VOWELS: "s \<in> set VOWELS \<Longrightarrow> lower_tr s = s"
  by (auto simp: VOWELS_def lower_tr_def lower_cp_def)

lemma lower_tr_CONSONANTS: "s \<in> set CONSONANTS \<Longrightarrow> lower_tr s = s"
  by (auto simp: CONSONANTS_def lower_tr_def lower_cp_def)

lemma lower_tr_pattern:
  assumes "alphabets xss" and "s \<in> set (map concat (product_lists xss))"
  shows "lower_tr s = s"
proof -
  from assms(2) obtain combo where c: "combo \<in> set (product_lists xss)" and s: "s = concat combo"
    by auto
  have "list_all (\<lambda>s. lower_tr s = s) combo"
    using assms(1) c by (rule alphabets_all) (simp_all add: lower_tr_VOWELS lower_tr_CONSONANTS)
  then show ?thesis unfolding s by (rule lower_tr_concat)
qed

lemma lower_tr_inventory: "s \<in> set generate_all_syllables \<Longrightarrow> lower_tr s = s"
  unfolding generate_all_syllables_def set_append Un_iff
  unfolding v_syllables_def vc_syllables_def cv_syllables_def cvc_syllables_def cvcc_syllables_def
  using lower_tr_VOWELS lower_tr_pattern [OF alphabets_simps(1)]
    lower_tr_pattern [OF alphabets_simps(2)] lower_tr_pattern [OF alphabets_simps(3)]
    lower_tr_pattern [OF alphabets_simps(4)]
  by blast


text \<open>
  C6. The inventory built from the 8 vowels and the 21 consonants over the patterns V, VC,
  CV, CVC and CVCC has 8 + 168 + 168 + 3528 + 74088 = 77960 entries, no two of them equal,
  so the set made from it has 77960 members; and every entry of a pattern's list has the
  length of the pattern, from 1 to 4.
\<close>

theorem inventory_size:
  "length generate_all_syllables = 77960 \<and>
   card (set generate_all_syllables) = 77960 \<and>
   list_all (\<lambda>s. length s = 1) v_syllables \<and>
   list_all (\<lambda>s. length s = 2) vc_syllables \<and>
   list_all (\<lambda>s. length s = 2) cv_syllables \<and>
   list_all (\<lambda>s. length s = 3) cvc_syllables \<and>
   list_all (\<lambda>s. length s = 4) cvcc_syllables"
proof -
  have n: "length generate_all_syllables = 77960"
    by (simp add: generate_all_syllables_def pattern_counts)
  then have "card (set generate_all_syllables) = 77960"
    using generate_all_syllables_distinct by (simp add: distinct_card)
  with n show ?thesis by (simp add: list_all_iff pattern_lengths)
qed

lemma syllabify_word_sound:
  "syllabify_word lower w S = Some ss \<Longrightarrow> decomposition S (lower w) ss"
  unfolding syllabify_word_def Let_def
  by (rule dp_table_sound [of "length (lower w)" "length (lower w)" "lower w" S ss, simplified])

lemma decomposition_drop_empty:
  assumes "concat ss = w" "list_all (\<lambda>s. s \<in> S \<and> length s \<le> 4) ss"
  shows "decomposition S w (filter (\<lambda>s. s \<noteq> []) ss)"
proof -
  have "concat (filter (\<lambda>s. s \<noteq> []) ss) = concat ss"
    by (induction ss) simp_all
  moreover have "list_all (\<lambda>s. s \<in> S \<and> 1 \<le> length s \<and> length s \<le> 4) (filter (\<lambda>s. s \<noteq> []) ss)"
    using assms(2) by (induction ss) (auto simp: Suc_le_eq)
  ultimately show ?thesis using assms(1) by (simp add: decomposition_def)
qed

lemma syllabify_word_complete:
  assumes "concat ss = lower w" "list_all (\<lambda>s. s \<in> S \<and> length s \<le> 4) ss"
  shows "syllabify_word lower w S \<noteq> None"
proof -
  have "decomposition S (take (length (lower w)) (lower w)) (filter (\<lambda>s. s \<noteq> []) ss)"
    using decomposition_drop_empty [OF assms] by simp
  then have "dp_table (lower w) S (length (lower w)) ! length (lower w) \<noteq> None"
    by (rule dp_table_complete [rotated]) simp
  then show ?thesis by (simp add: syllabify_word_def Let_def)
qed

text \<open>
  C5. For a lowercase token (one that \<open>lower\<close> leaves as it is), a result of
  \<open>syllabify_word\<close> other than \<open>None\<close> is a list of inventory syllables whose
  concatenation is the whole token: there is no partial result.
\<close>

theorem syllabify_word_concat:
  assumes "lower w = w" and "syllabify_word lower w S = Some ss"
  shows "concat ss = w \<and> list_all (\<lambda>s. s \<in> S) ss"
proof -
  have "decomposition S (lower w) ss"
    using assms(2) by (rule syllabify_word_sound)
  then have "concat ss = w" and "list_all (\<lambda>s. s \<in> S \<and> 1 \<le> length s \<and> length s \<le> 4) ss"
    using assms(1) by (simp_all add: decomposition_def)
  then show ?thesis by (simp add: list_all_iff)
qed

theorem syllabify_word_concat_witness:
  "lower_tr (ustr ''balk'') = ustr ''balk'' \<and>
   syllabify_word lower_tr (ustr ''balk'') (set (map ustr [''ba'', ''bal'', ''balk'', ''l'', ''k'']))
     = Some [ustr ''balk''] \<and>
   concat [ustr ''balk''] = ustr ''balk''"
proof -
  let ?S = "set (map ustr [''ba'', ''bal'', ''balk'', ''l'', ''k''])"
  have l: "lower_tr (ustr ''balk'') = ustr ''balk''"
    by (simp add: lower_tr_def lower_cp_def ustr_def)
  have r: "syllabify_word lower_tr (ustr ''balk'') ?S = Some [ustr ''balk'']"
    by code_simp
  from syllabify_word_concat [of lower_tr "ustr ''balk''" ?S "[ustr ''balk'']"] l r
  show ?thesis by simp
qed

text \<open>
  C9. \<open>syllabify_word\<close> lowercases its argument before anything else, so a word and its
  lowercase form get the same result. Lowercasing a lowercase string changes nothing in
  Python; the theorem asks this of \<open>lower\<close> at the word.
\<close>

theorem syllabify_word_case_insensitive:
  "lower (lower w) = lower w \<Longrightarrow> syllabify_word lower w S = syllabify_word lower (lower w) S"
  by (simp add: syllabify_word_def)

theorem syllabify_word_case_insensitive_witness:
  "lower_tr (lower_tr (ustr ''BaLK'')) = lower_tr (ustr ''BaLK'') \<and>
   syllabify_word lower_tr (ustr ''BaLK'') (set (map ustr [''ba'', ''lk''])) =
   syllabify_word lower_tr (lower_tr (ustr ''BaLK'')) (set (map ustr [''ba'', ''lk''])) \<and>
   (\<forall>w S. syllabify_word lower_tr w S = syllabify_word lower_tr (lower_tr w) S)"
proof -
  have l: "lower_tr (lower_tr (ustr ''BaLK'')) = lower_tr (ustr ''BaLK'')"
    by (rule lower_tr_idem)
  from syllabify_word_case_insensitive [of lower_tr, OF lower_tr_idem] l show ?thesis by simp
qed

text \<open>
  C10. On the empty string \<open>syllabify_word\<close> returns the empty list of syllables, the
  entry written for position 0, and not \<open>None\<close>. (The lowercase of the empty string is
  the empty string.)
\<close>

theorem syllabify_word_empty:
  "lower [] = [] \<Longrightarrow> syllabify_word lower [] S = Some []"
  by (simp add: syllabify_word_def dp_table_def)

theorem syllabify_word_empty_witness:
  "lower_tr [] = [] \<and> syllabify_word lower_tr [] (set generate_all_syllables) = Some []"
proof -
  have l: "lower_tr [] = []" by (simp add: lower_tr_def)
  from syllabify_word_empty [of lower_tr] l show ?thesis by simp
qed

text \<open>
  C1. The scan has no false negative. \<open>dp[i]\<close> is set exactly when the first \<open>i\<close>
  characters have a decomposition, whichever of them the first-fit choice records, so a
  lowercase token that has a decomposition into inventory syllables of at most four
  characters always gets a result, and the result is a decomposition of the token.
\<close>

theorem syllabify_word_finds_decomposition:
  assumes "lower w = w" and "concat ss = w" and "list_all (\<lambda>s. s \<in> S \<and> length s \<le> 4) ss"
  shows "\<exists>ss'. syllabify_word lower w S = Some ss' \<and> concat ss' = w \<and> list_all (\<lambda>s. s \<in> S) ss'"
proof -
  have "syllabify_word lower w S \<noteq> None"
    using assms by (intro syllabify_word_complete) simp_all
  then obtain ss' where r: "syllabify_word lower w S = Some ss'" by auto
  then have "decomposition S (lower w) ss'" by (rule syllabify_word_sound)
  then have "concat ss' = w \<and> list_all (\<lambda>s. s \<in> S) ss'"
    using assms(1) by (simp add: decomposition_def list_all_iff)
  with r show ?thesis by simp
qed

theorem syllabify_word_finds_decomposition_witness:
  "lower_tr (ustr ''balk'') = ustr ''balk'' \<and>
   concat (map ustr [''ba'', ''l'', ''k'']) = ustr ''balk'' \<and>
   list_all (\<lambda>s. s \<in> set (map ustr [''ba'', ''l'', ''k'', ''lk'']) \<and> length s \<le> 4)
     (map ustr [''ba'', ''l'', ''k'']) \<and>
   (\<exists>ss'. syllabify_word lower_tr (ustr ''balk'') (set (map ustr [''ba'', ''l'', ''k'', ''lk'']))
      = Some ss' \<and> concat ss' = ustr ''balk'' \<and>
      list_all (\<lambda>s. s \<in> set (map ustr [''ba'', ''l'', ''k'', ''lk''])) ss')"
proof -
  let ?S = "set (map ustr [''ba'', ''l'', ''k'', ''lk''])"
  have l: "lower_tr (ustr ''balk'') = ustr ''balk''"
    by (simp add: lower_tr_def lower_cp_def ustr_def)
  have c: "concat (map ustr [''ba'', ''l'', ''k'']) = ustr ''balk''"
    by (simp add: ustr_def)
  have m: "list_all (\<lambda>s. s \<in> ?S \<and> length s \<le> 4) (map ustr [''ba'', ''l'', ''k''])"
    by (simp add: ustr_def)
  from syllabify_word_finds_decomposition
         [of lower_tr "ustr ''balk''" "map ustr [''ba'', ''l'', ''k'']" ?S] l c m
  show ?thesis by blast
qed

theorem syllabify_word_false_negative_refuted:
  "\<not> (\<exists>lower w S ss. lower w = w \<and> concat ss = w \<and>
        list_all (\<lambda>s. s \<in> S \<and> length s \<le> 4) ss \<and> syllabify_word lower w S = None) \<and>
   \<not> (\<exists>w ss. concat ss = w \<and>
        list_all (\<lambda>s. s \<in> set generate_all_syllables \<and> length s \<le> 4) ss \<and>
        syllabify_word lower_tr w (set generate_all_syllables) = None)"
proof (intro conjI notI)
  assume "\<exists>lower w S ss. lower w = w \<and> concat ss = w \<and>
        list_all (\<lambda>s. s \<in> S \<and> length s \<le> 4) ss \<and> syllabify_word lower w S = None"
  then obtain lower w S ss where h: "lower w = w" "concat ss = w"
      "list_all (\<lambda>s. s \<in> S \<and> length s \<le> 4) ss" "syllabify_word lower w S = None"
    by blast
  have "syllabify_word lower w S \<noteq> None"
    using h(1-3) by (intro syllabify_word_complete) simp_all
  with h(4) show False by simp
next
  assume "\<exists>w ss. concat ss = w \<and>
        list_all (\<lambda>s. s \<in> set generate_all_syllables \<and> length s \<le> 4) ss \<and>
        syllabify_word lower_tr w (set generate_all_syllables) = None"
  then obtain w ss where h: "concat ss = w"
      "list_all (\<lambda>s. s \<in> set generate_all_syllables \<and> length s \<le> 4) ss"
      "syllabify_word lower_tr w (set generate_all_syllables) = None"
    by blast
  from h(2) have "list_all (\<lambda>s. lower_tr s = s) ss"
    by (auto simp: list_all_iff lower_tr_inventory)
  then have "lower_tr w = w" unfolding h(1) [symmetric] by (rule lower_tr_concat)
  then have "syllabify_word lower_tr w (set generate_all_syllables) \<noteq> None"
    using h(1,2) by (intro syllabify_word_complete) simp_all
  with h(3) show False by simp
qed

section \<open>The store\<close>






lemma working_exec: "working (exec s c) = exec_db s (working c)"
  by (cases s) simp_all

lemma working_run: "working (run stmts c) = fold exec_db stmts (working c)"
  unfolding run_def by (induction stmts arbitrary: c) (simp_all add: working_exec)

lemma run_append: "run (xs @ ys) c = run ys (run xs c)"
  by (simp add: run_def)

lemma enqueue_visited:
  "visited_urls (fold exec_db (map InsertQueue urls) d) = visited_urls d"
  by (induction urls arbitrary: d) simp_all

lemma enqueue_set:
  "set (url_queue (fold exec_db (map InsertQueue urls) d)) = set (url_queue d) \<union> set urls"
  by (induction urls arbitrary: d) auto

lemma enqueue_noop:
  "set urls \<subseteq> set (url_queue d) \<Longrightarrow> fold exec_db (map InsertQueue urls) d = d"
  by (induction urls arbitrary: d) simp_all

lemma enqueue_prefix:
  "prefix (url_queue d) (url_queue (fold exec_db (map InsertQueue urls) d))"
proof (induction urls arbitrary: d)
  case Nil
  then show ?case by simp
next
  case (Cons u urls)
  have "prefix (url_queue d) (url_queue (exec_db (InsertQueue u) d))" by simp
  also have "prefix \<dots> (url_queue (fold exec_db (map InsertQueue urls) (exec_db (InsertQueue u) d)))"
    by (rule Cons.IH)
  finally show ?case by simp
qed

lemma enqueue_distinct:
  "distinct (url_queue d) \<Longrightarrow> distinct (url_queue (fold exec_db (map InsertQueue urls) d))"
  by (induction urls arbitrary: d) simp_all

lemma working_add_urls_to_queue:
  "working (add_urls_to_queue urls c) = fold exec_db (map InsertQueue urls) (working c)"
  by (simp add: add_urls_to_queue_def add_urls_to_queue_stmts_def working_run)

text \<open>
  C3, as the code has it. Enqueueing skips a url that is already in the frontier: when
  every url of the call is queued, the tables are left as they were. The visited set is
  not read and not written: every url of the call is in the frontier afterwards, visited
  or not. The rows already queued keep their places and a frontier without duplicates
  stays so.
\<close>

theorem add_urls_to_queue_dedup:
  "(set urls \<subseteq> set (url_queue (working c)) \<longrightarrow> working (add_urls_to_queue urls c) = working c) \<and>
   set (url_queue (working (add_urls_to_queue urls c))) = set (url_queue (working c)) \<union> set urls \<and>
   visited_urls (working (add_urls_to_queue urls c)) = visited_urls (working c) \<and>
   prefix (url_queue (working c)) (url_queue (working (add_urls_to_queue urls c))) \<and>
   (distinct (url_queue (working c)) \<longrightarrow>
      distinct (url_queue (working (add_urls_to_queue urls c))))"
  unfolding working_add_urls_to_queue
  using enqueue_noop [of urls "working c"] enqueue_distinct [of "working c" urls]
  by (simp add: enqueue_set enqueue_visited enqueue_prefix)

theorem add_urls_to_queue_dedup_witness:
  "set [ustr ''http://a.tr/''] \<subseteq> set (url_queue (working (connect (empty_db\<lparr>url_queue := [ustr ''http://a.tr/'', ustr ''http://b.tr/'']\<rparr>)))) \<and>
   distinct (url_queue (working (connect (empty_db\<lparr>url_queue := [ustr ''http://a.tr/'', ustr ''http://b.tr/'']\<rparr>)))) \<and>
   working (add_urls_to_queue [ustr ''http://a.tr/'']
     (connect (empty_db\<lparr>url_queue := [ustr ''http://a.tr/'', ustr ''http://b.tr/'']\<rparr>))) =
   working (connect (empty_db\<lparr>url_queue := [ustr ''http://a.tr/'', ustr ''http://b.tr/'']\<rparr>)) \<and>
   distinct (url_queue (working (add_urls_to_queue [ustr ''http://a.tr/'']
     (connect (empty_db\<lparr>url_queue := [ustr ''http://a.tr/'', ustr ''http://b.tr/'']\<rparr>)))))"
proof -
  let ?c = "connect (empty_db\<lparr>url_queue := [ustr ''http://a.tr/'', ustr ''http://b.tr/'']\<rparr>)"
  have q: "url_queue (working ?c) = [ustr ''http://a.tr/'', ustr ''http://b.tr/'']"
    by (simp add: connect_def)
  have s: "set [ustr ''http://a.tr/''] \<subseteq> set (url_queue (working ?c))"
    unfolding q by simp
  have d: "distinct (url_queue (working ?c))"
    unfolding q by (simp add: ustr_def)
  from add_urls_to_queue_dedup [of "[ustr ''http://a.tr/'']" ?c] s d show ?thesis by blast
qed

theorem add_urls_to_queue_visited_counterexample:
  "is_url_visited
     (connect (empty_db\<lparr>visited_urls := [ustr ''http://a.tr/'' \<mapsto> ustr ''2024-01-01'']\<rparr>))
     (ustr ''http://a.tr/'') \<and>
   url_queue (working
     (connect (empty_db\<lparr>visited_urls := [ustr ''http://a.tr/'' \<mapsto> ustr ''2024-01-01'']\<rparr>))) = [] \<and>
   url_queue (working (add_urls_to_queue [ustr ''http://a.tr/'']
     (connect (empty_db\<lparr>visited_urls := [ustr ''http://a.tr/'' \<mapsto> ustr ''2024-01-01'']\<rparr>)))) =
     [ustr ''http://a.tr/''] \<and>
   is_url_visited
     (add_urls_to_queue [ustr ''http://a.tr/'']
       (connect (empty_db\<lparr>visited_urls := [ustr ''http://a.tr/'' \<mapsto> ustr ''2024-01-01'']\<rparr>)))
     (ustr ''http://a.tr/'')"
  by (simp add: is_url_visited_def connect_def empty_db_def add_urls_to_queue_def
        add_urls_to_queue_stmts_def run_def)

section \<open>Commits of one page\<close>











text \<open>The statements of the page are what the body of the loop runs after \<open>crawl_page\<close>.\<close>

lemma run_page_stmts:
  "run (page_stmts e S url crawled_at text links) c =
     (let c1 = mark_url_visited url crawled_at c;
          c2 = (if text \<noteq> [] then process_text e S text url c1 else c1)
      in if links \<noteq> [] then add_urls_to_queue links c2 else c2)"
  by (simp add: page_stmts_def run_append mark_url_visited_def process_text_def
        add_urls_to_queue_def Let_def run_def)




section \<open>Link extraction\<close>

lemma keep_link_kept:
  "urlparse e u = Some p \<Longrightarrow> urlparse e base_url = Some pb \<Longrightarrow>
   keep_link e c pb p u = kept e c base_url u"
  by (auto simp: keep_link_def kept_def)

lemma extract_links_loop_filter:
  "extract_links_loop e c base_url hrefs links = Some out \<Longrightarrow>
   \<exists>abs. map (urljoin e base_url) hrefs = map Some abs \<and>
         out = links @ filter (kept e c base_url) abs"
proof (induction hrefs arbitrary: links)
  case Nil
  then show ?case by simp
next
  case (Cons href hrefs)
  from Cons.prems obtain u p pb where
    u: "urljoin e base_url href = Some u" and p: "urlparse e u = Some p"
    and pb: "urlparse e base_url = Some pb"
    and rest: "extract_links_loop e c base_url hrefs
                 (if keep_link e c pb p u then links @ [u] else links) = Some out"
    by (auto split: option.splits)
  from Cons.IH [OF rest] obtain abs where
    a: "map (urljoin e base_url) hrefs = map Some abs"
    and o: "out = (if keep_link e c pb p u then links @ [u] else links) @
                  filter (kept e c base_url) abs"
    by blast
  have "map (urljoin e base_url) (href # hrefs) = map Some (u # abs)"
    using u a by simp
  moreover have "out = links @ filter (kept e c base_url) (u # abs)"
    using o keep_link_kept [OF p pb, of c] by simp
  ultimately show ?case by blast
qed

text \<open>
  C7. When link extraction returns, the list is the first 50 of the absolute urls that
  pass the filter (http or https, not visited at that time, on the domain of the page or
  Turkish by the heuristic), in the order of the document: at most 50 links, each of
  them passing the filter, a subsequence of the absolute urls of the anchors.
\<close>

theorem extract_links_filtered:
  assumes "extract_links e c hrefs base_url = Some links"
  shows "length links \<le> 50 \<and> list_all (kept e c base_url) links \<and>
         (\<exists>abs. map (urljoin e base_url) hrefs = map Some abs \<and>
                links = take 50 (filter (kept e c base_url) abs) \<and> subseq links abs)"
proof -
  from assms obtain out where out: "extract_links_loop e c base_url hrefs [] = Some out"
    and links: "links = take 50 out"
    by (auto simp: extract_links_def)
  from extract_links_loop_filter [OF out] obtain abs where
    a: "map (urljoin e base_url) hrefs = map Some abs" and o: "out = filter (kept e c base_url) abs"
    by auto
  have "set links \<subseteq> set out" unfolding links by (rule set_take_subset)
  then have k: "list_all (kept e c base_url) links" using o by (auto simp: list_all_iff)
  have "subseq links out" unfolding links
    by (rule prefix_imp_subseq) (rule take_is_prefix)
  moreover have "subseq out abs" unfolding o by simp
  ultimately have "subseq links abs" by (rule subseq_order.order_trans)
  with a o links k show ?thesis by auto
qed

theorem extract_links_filtered_witness:
  "extract_links (example_env two_pages) (connect empty_db)
     (map ustr [''http://a.tr/x'', ''ftp://a.tr/y'', ''http://b.com/'', ''http://b.com/tr/z''])
     (ustr ''http://a.tr/'') =
     Some (map ustr [''http://a.tr/x'', ''http://b.com/tr/z'']) \<and>
   length (map ustr [''http://a.tr/x'', ''http://b.com/tr/z'']) \<le> 50 \<and>
   list_all (kept (example_env two_pages) (connect empty_db) (ustr ''http://a.tr/''))
     (map ustr [''http://a.tr/x'', ''http://b.com/tr/z''])"
proof -
  have r: "extract_links (example_env two_pages) (connect empty_db)
     (map ustr [''http://a.tr/x'', ''ftp://a.tr/y'', ''http://b.com/'', ''http://b.com/tr/z''])
     (ustr ''http://a.tr/'') =
     Some (map ustr [''http://a.tr/x'', ''http://b.com/tr/z''])"
    by code_simp
  from extract_links_filtered [OF r] r show ?thesis by blast
qed

section \<open>The crawl loop\<close>

lemma visited_exec_db: "dom (visited_urls d) \<subseteq> dom (visited_urls (exec_db s d))"
  by (cases s)
     (auto simp: update_syllable_def update_monograph_def update_digraph_def update_trigraph_def)

lemma visited_fold_exec_db: "dom (visited_urls d) \<subseteq> dom (visited_urls (fold exec_db stmts d))"
proof (induction stmts arbitrary: d)
  case Nil
  then show ?case by simp
next
  case (Cons s stmts)
  have "dom (visited_urls d) \<subseteq> dom (visited_urls (exec_db s d))" by (rule visited_exec_db)
  also have "\<dots> \<subseteq> dom (visited_urls (fold exec_db stmts (exec_db s d)))" by (rule Cons.IH)
  finally show ?case by simp
qed

lemma visited_run: "dom (visited_urls (working c)) \<subseteq> dom (visited_urls (working (run stmts c)))"
  unfolding working_run by (rule visited_fold_exec_db)

lemma visited_mark_url_visited:
  "insert url (dom (visited_urls (working c))) \<subseteq>
   dom (visited_urls (working (mark_url_visited url t c)))"
  by (auto simp: mark_url_visited_def mark_url_visited_stmts_def working_run)

lemma visited_get_next_url:
  "get_next_url c = (r, c') \<Longrightarrow> visited_urls (working c') = visited_urls (working c)"
  by (auto simp: get_next_url_def working_run split: list.splits)

text \<open>What a pass that requests a page does to the visited set.\<close>

lemma visited_after_page:
  assumes "c1 = mark_url_visited url t c"
    and "c2 = (if text \<noteq> [] then process_text e S text url c1 else c1)"
    and "c3 = (if links \<noteq> [] then add_urls_to_queue links c2 else c2)"
  shows "insert url (dom (visited_urls (working c))) \<subseteq> dom (visited_urls (working c3))"
proof -
  have "insert url (dom (visited_urls (working c))) \<subseteq> dom (visited_urls (working c1))"
    unfolding assms(1) by (rule visited_mark_url_visited)
  also have "\<dots> \<subseteq> dom (visited_urls (working c2))"
    unfolding assms(2) by (simp add: process_text_def visited_run)
  also have "\<dots> \<subseteq> dom (visited_urls (working c3))"
    unfolding assms(3) by (simp add: add_urls_to_queue_def visited_run)
  finally show ?thesis .
qed

lemma crawl_iteration_cases:
  assumes "crawl_iteration e S max_pages save_interval st = (out, st')"
  shows "st' = st \<or>
         (\<exists>c. st' = st\<lparr>cs_conn := c\<rparr> \<and>
              visited_urls (working c) = visited_urls (working (cs_conn st))) \<or>
         (\<exists>url c3. \<not> is_url_visited (cs_conn st) url \<and>
              fetched st' = fetched st @ [url] \<and> cs_conn st' = c3 \<and>
              insert url (dom (visited_urls (working (cs_conn st)))) \<subseteq>
                dom (visited_urls (working c3)))"
proof (cases "max_pages > 0 \<and> int (pages_this_session st) \<ge> max_pages")
  case True
  with assms show ?thesis by (simp add: crawl_iteration_def)
next
  case False
  obtain r c where g: "get_next_url (cs_conn st) = (r, c)" by (cases "get_next_url (cs_conn st)")
  have v: "visited_urls (working c) = visited_urls (working (cs_conn st))"
    using g by (rule visited_get_next_url)
  show ?thesis
  proof (cases r)
    case None
    with assms False g v show ?thesis by (auto simp: crawl_iteration_def)
  next
    case (Some url)
    show ?thesis
    proof (cases "url = [] \<or> is_url_visited c url")
      case True
      with assms False g v Some show ?thesis
        by (auto simp: crawl_iteration_def split: if_splits)
    next
      case nv: False
      obtain tx links where p: "crawl_page e c (pages_this_session st + 1) url = (tx, links)"
        by (cases "crawl_page e c (pages_this_session st + 1) url")
      define c1 where "c1 = mark_url_visited url (now e (pages_this_session st + 1)) c"
      define c2 where "c2 = (if tx \<noteq> [] then process_text e S tx url c1 else c1)"
      define c3 where "c3 = (if links \<noteq> [] then add_urls_to_queue links c2 else c2)"
      have st': "st' = \<lparr>cs_conn = c3, pages_this_session = pages_this_session st + 1,
                       fetched = fetched st @ [url]\<rparr>"
        using assms False g Some nv p
        by (auto simp: crawl_iteration_def Let_def c1_def c2_def c3_def)
      have "insert url (dom (visited_urls (working c))) \<subseteq> dom (visited_urls (working c3))"
        using c1_def c2_def c3_def by (rule visited_after_page)
      moreover have "\<not> is_url_visited (cs_conn st) url"
        using nv v by (simp add: is_url_visited_def)
      ultimately show ?thesis using st' v by auto
    qed
  qed
qed

lemma crawl_iteration_inv:
  assumes "session_inv V0 st" and "crawl_iteration e S max_pages save_interval st = (out, st')"
  shows "session_inv V0 st'"
proof -
  from crawl_iteration_cases [OF assms(2)] consider
      "st' = st"
    | c where "st' = st\<lparr>cs_conn := c\<rparr>"
        "visited_urls (working c) = visited_urls (working (cs_conn st))"
    | url c3 where "\<not> is_url_visited (cs_conn st) url" "fetched st' = fetched st @ [url]"
        "cs_conn st' = c3"
        "insert url (dom (visited_urls (working (cs_conn st)))) \<subseteq> dom (visited_urls (working c3))"
    by blast
  then show ?thesis
  proof cases
    case 1
    with assms(1) show ?thesis by simp
  next
    case 2
    with assms(1) show ?thesis by (simp add: session_inv_def)
  next
    case 3
    from 3(1) have nv: "url \<notin> dom (visited_urls (working (cs_conn st)))"
      by (auto simp: is_url_visited_def)
    from assms(1) have d: "distinct (fetched st)"
      and f: "set (fetched st) \<subseteq> dom (visited_urls (working (cs_conn st)))"
      and n: "set (fetched st) \<inter> V0 = {}"
      and v: "V0 \<subseteq> dom (visited_urls (working (cs_conn st)))"
      by (simp_all add: session_inv_def)
    from 3(3,4) have grow: "insert url (dom (visited_urls (working (cs_conn st)))) \<subseteq>
        dom (visited_urls (working (cs_conn st')))"
      by simp
    have "distinct (fetched st')" using d nv f 3(2) by auto
    moreover have "set (fetched st') \<subseteq> dom (visited_urls (working (cs_conn st')))"
      using f grow unfolding 3(2) by auto
    moreover have "set (fetched st') \<inter> V0 = {}"
      using n nv v unfolding 3(2) by auto
    moreover have "V0 \<subseteq> dom (visited_urls (working (cs_conn st')))"
      using v grow by blast
    ultimately show ?thesis by (simp add: session_inv_def)
  qed
qed

lemma crawl_loop_inv:
  "session_inv V0 st \<Longrightarrow> session_inv V0 (crawl_loop fuel e S max_pages save_interval st)"
proof (induction fuel arbitrary: st)
  case 0
  then show ?case by simp
next
  case (Suc fuel)
  obtain out st' where i: "crawl_iteration e S max_pages save_interval st = (out, st')"
    by (cases "crawl_iteration e S max_pages save_interval st")
  from Suc.prems i have "session_inv V0 st'" by (rule crawl_iteration_inv)
  with Suc.IH i show ?case by (cases out) simp_all
qed

lemma crawl_continuous_inv:
  "session_inv (dom (visited_urls (working c)))
     (crawl_continuous fuel e S seed_urls max_pages save_interval c)"
proof -
  let ?st0 = "\<lparr>cs_conn = add_urls_to_queue seed_urls c, pages_this_session = 0, fetched = []\<rparr>"
  have "session_inv (dom (visited_urls (working c))) ?st0"
    by (simp add: session_inv_def working_add_urls_to_queue enqueue_visited)
  then have "session_inv (dom (visited_urls (working c)))
               (crawl_loop fuel e S max_pages save_interval ?st0)"
    by (rule crawl_loop_inv)
  then show ?thesis
    by (simp add: crawl_continuous_def Let_def session_inv_def)
qed

text \<open>
  C8. In a pass of the loop, a dequeued url that is in the visited set is skipped: the
  pass only takes it off the frontier, requests nothing and goes on. So in a session,
  however long it runs and whatever the frontier holds, no url is requested twice, no url
  that was visited before the session is requested, and every requested url is marked
  visited.
\<close>

theorem crawl_skips_visited:
  "(\<forall>url c'. \<not> (max_pages > 0 \<and> int (pages_this_session st) \<ge> max_pages) \<and>
       get_next_url (cs_conn st) = (Some url, c') \<and> url \<noteq> [] \<and> is_url_visited c' url \<longrightarrow>
       crawl_iteration e S max_pages save_interval st = (Continue, st\<lparr>cs_conn := c'\<rparr>)) \<and>
   distinct (fetched (crawl_continuous fuel e S seed_urls max_pages save_interval c)) \<and>
   set (fetched (crawl_continuous fuel e S seed_urls max_pages save_interval c)) \<inter>
     dom (visited_urls (working c)) = {} \<and>
   set (fetched (crawl_continuous fuel e S seed_urls max_pages save_interval c)) \<subseteq>
     dom (visited_urls (working (cs_conn
       (crawl_continuous fuel e S seed_urls max_pages save_interval c))))"
proof -
  have "\<forall>url c'. \<not> (max_pages > 0 \<and> int (pages_this_session st) \<ge> max_pages) \<and>
       get_next_url (cs_conn st) = (Some url, c') \<and> url \<noteq> [] \<and> is_url_visited c' url \<longrightarrow>
       crawl_iteration e S max_pages save_interval st = (Continue, st\<lparr>cs_conn := c'\<rparr>)"
    by (simp add: crawl_iteration_def)
  moreover have "session_inv (dom (visited_urls (working c)))
                   (crawl_continuous fuel e S seed_urls max_pages save_interval c)"
    by (rule crawl_continuous_inv)
  ultimately show ?thesis unfolding session_inv_def by blast
qed

theorem crawl_skips_visited_witness:
  "\<not> ((0::int) > 0 \<and> int (pages_this_session revisit_state) \<ge> 0) \<and>
   get_next_url (cs_conn revisit_state) =
     (Some (ustr ''http://a.tr/''), run [DeleteQueueHead, Commit] (cs_conn revisit_state)) \<and>
   ustr ''http://a.tr/'' \<noteq> [] \<and>
   is_url_visited (run [DeleteQueueHead, Commit] (cs_conn revisit_state)) (ustr ''http://a.tr/'') \<and>
   crawl_iteration (example_env two_pages) (set (map ustr [''ba''])) 0 10 revisit_state =
     (Continue, revisit_state\<lparr>cs_conn := run [DeleteQueueHead, Commit] (cs_conn revisit_state)\<rparr>) \<and>
   fetched (crawl_continuous 5 (example_env two_pages) (set (map ustr [''ba'']))
     [ustr ''http://a.tr/''] 0 10 (connect empty_db)) =
     map ustr [''http://a.tr/'', ''http://a.tr/x''] \<and>
   distinct (fetched (crawl_continuous 5 (example_env two_pages) (set (map ustr [''ba'']))
     [ustr ''http://a.tr/''] 0 10 (connect empty_db)))"
proof -
  let ?c' = "run [DeleteQueueHead, Commit] (cs_conn revisit_state)"
  have m: "\<not> ((0::int) > 0 \<and> int (pages_this_session revisit_state) \<ge> 0)" by simp
  have g: "get_next_url (cs_conn revisit_state) = (Some (ustr ''http://a.tr/''), ?c')"
    by (simp add: get_next_url_def revisit_state_def connect_def)
  have n: "ustr ''http://a.tr/'' \<noteq> []" by (simp add: ustr_def)
  have v: "is_url_visited ?c' (ustr ''http://a.tr/'')"
    by (simp add: is_url_visited_def revisit_state_def connect_def run_def)
  have f: "fetched (crawl_continuous 5 (example_env two_pages) (set (map ustr [''ba'']))
     [ustr ''http://a.tr/''] 0 10 (connect empty_db)) =
     map ustr [''http://a.tr/'', ''http://a.tr/x'']"
    by code_simp
  from crawl_skips_visited [of 0 revisit_state "example_env two_pages" "set (map ustr [''ba''])"
      10 5 "[ustr ''http://a.tr/'']" "connect empty_db"] m g n v f
  show ?thesis by blast
qed

end
